theory Spec2Isabelle
  imports Complex_Main "HOL-Library.AList" "HOL-Library.Multiset"
begin

section \<open>The knowledge graph of memory-graph.ts\<close>

text \<open>
  A shallow embedding of the class \<open>MemoryGraph\<close>
  (\<^verbatim>\<open>src/v3/@claude-flow/memory/src/memory-graph.ts\<close>).

  \<^item> A JavaScript \<open>Map\<close> iterates in insertion order, \<open>set\<close> on a present key keeps the
    key's position and \<open>set\<close> on a new key appends. It is an association list with
    \<open>AList.update\<close> for \<open>set\<close>, \<open>AList.delete\<close> for \<open>delete\<close> and \<open>map_of\<close> for \<open>get\<close>.
  \<^item> A JavaScript \<open>Set\<close> of strings is a list in insertion order (\<open>set_add\<close>, \<open>set_delete\<close>).
  \<^item> A JavaScript number is a \<open>real\<close>: arithmetic is exact, there is no NaN and no
    infinity. The counters and limits (\<open>maxNodes\<close>, \<open>pageRankIterations\<close>, \<open>accessCount\<close>,
    \<open>createdAt\<close>) are integers. \<open>x || d\<close> on a number takes \<open>d\<close> when \<open>x\<close> is undefined or zero (\<open>or_num\<close>),
    on a string when it is undefined or empty (\<open>or_str\<close>).
  \<^item> Every method takes the object state and returns the new state, with the returned
    value beside it where the method returns one.
\<close>

subsection \<open>Types\<close>

datatype EdgeType = Reference | Similar | Temporal | CoAccessed | Causal

datatype CommunityAlgorithm = Louvain | LabelPropagation

record MemoryGraphConfig =
  similarityThreshold :: real
  pageRankDamping :: real
  pageRankIterations :: int
  pageRankConvergence :: real
  maxNodes :: int
  enableAutoEdges :: bool
  communityAlgorithm :: CommunityAlgorithm

record GraphNode =
  node_id :: string
  category :: string
  confidence :: real
  accessCount :: int
  createdAt :: int

record GraphEdge =
  targetId :: string
  etype :: EdgeType
  weight :: real

text \<open>
  Modelled from the spec: the declarations of \<open>MemoryEntry\<close> and \<open>SearchResult\<close> live in
  \<^verbatim>\<open>types.js\<close>, which is not part of the sources at hand. The fields are the ones the
  graph reads: an id, a reference list, optional metadata with an optional category and
  an optional confidence, an access count and a creation time; a search result is an
  entry with a score.
\<close>

record Metadata =
  md_category :: "string option"
  md_confidence :: "real option"

record MemoryEntry =
  entry_id :: string
  references :: "string list"
  metadata :: "Metadata option"
  entry_accessCount :: int
  entry_createdAt :: int

record SearchResult =
  sr_entry :: MemoryEntry
  sr_score :: real

record RankedResult =
  entry :: MemoryEntry
  score :: real
  pageRank :: real
  combinedScore :: real
  community :: "string option"

record MemoryGraph =
  nodes :: "(string \<times> GraphNode) list"
  edges :: "(string \<times> GraphEdge list) list"
  reverseEdges :: "(string \<times> string list) list"
  pageRanks :: "(string \<times> real) list"
  communities :: "(string \<times> string) list"
  config :: MemoryGraphConfig
  dirty :: bool

definition DEFAULT_CONFIG :: MemoryGraphConfig where
  "DEFAULT_CONFIG =
     \<lparr>similarityThreshold = 8 / 10, pageRankDamping = 85 / 100, pageRankIterations = 50,
      pageRankConvergence = 1 / 1000000, maxNodes = 5000, enableAutoEdges = True,
      communityAlgorithm = LabelPropagation\<rparr>"

text \<open>The state of a freshly constructed graph with the configuration \<open>cfg\<close>.\<close>

definition new_graph :: "MemoryGraphConfig \<Rightarrow> MemoryGraph" where
  "new_graph cfg =
     \<lparr>nodes = [], edges = [], reverseEdges = [], pageRanks = [], communities = [],
      config = cfg, dirty = True\<rparr>"

subsection \<open>Maps, sets and the falsy default\<close>

definition has :: "('k \<times> 'v) list \<Rightarrow> 'k \<Rightarrow> bool" where
  "has m k = (k \<in> set (map fst m))"

definition set_add :: "'a \<Rightarrow> 'a list \<Rightarrow> 'a list" where
  "set_add x s = (if x \<in> set s then s else s @ [x])"

definition set_delete :: "'a \<Rightarrow> 'a list \<Rightarrow> 'a list" where
  "set_delete x s = removeAll x s"

definition or_num :: "real option \<Rightarrow> real \<Rightarrow> real" where
  "or_num x d = (case x of None \<Rightarrow> d | Some r \<Rightarrow> if r = 0 then d else r)"

definition or_str :: "string option \<Rightarrow> string \<Rightarrow> string" where
  "or_str x d = (case x of None \<Rightarrow> d | Some s \<Rightarrow> if s = [] then d else s)"

text \<open>\<open>this.edges.get(id) || []\<close> and the members of \<open>this.reverseEdges.get(id)\<close>.\<close>

definition outgoing :: "MemoryGraph \<Rightarrow> string \<Rightarrow> GraphEdge list" where
  "outgoing g k = (case map_of (edges g) k of None \<Rightarrow> [] | Some l \<Rightarrow> l)"

definition incoming :: "MemoryGraph \<Rightarrow> string \<Rightarrow> string list" where
  "incoming g k = (case map_of (reverseEdges g) k of None \<Rightarrow> [] | Some s \<Rightarrow> s)"

definition hasEdge :: "MemoryGraph \<Rightarrow> string \<Rightarrow> string \<Rightarrow> bool" where
  "hasEdge g sourceId tgt =
     (case map_of (edges g) sourceId of
        None \<Rightarrow> False
      | Some edgeList \<Rightarrow> list_ex (\<lambda>e. targetId e = tgt) edgeList)"

subsection \<open>addNode, addEdge, removeNode, buildFromBackend\<close>

definition node_of_entry :: "MemoryEntry \<Rightarrow> GraphNode" where
  "node_of_entry e =
     \<lparr>node_id = entry_id e,
      category = or_str (case metadata e of None \<Rightarrow> None | Some m \<Rightarrow> md_category m) ''general'',
      confidence = or_num (case metadata e of None \<Rightarrow> None | Some m \<Rightarrow> md_confidence m) (1 / 2),
      accessCount = entry_accessCount e,
      createdAt = entry_createdAt e\<rparr>"

definition addNode :: "MemoryGraph \<Rightarrow> MemoryEntry \<Rightarrow> MemoryGraph" where
  "addNode g e =
     (if maxNodes (config g) \<le> int (length (nodes g)) \<and> \<not> has (nodes g) (entry_id e) then g
      else g\<lparr>nodes := AList.update (entry_id e) (node_of_entry e) (nodes g),
             edges := (if has (edges g) (entry_id e) then edges g
                       else AList.update (entry_id e) [] (edges g)),
             reverseEdges := (if has (reverseEdges g) (entry_id e) then reverseEdges g
                              else AList.update (entry_id e) [] (reverseEdges g)),
             dirty := True\<rparr>)"

text \<open>\<open>existing.weight = Math.max(existing.weight, weight)\<close> on the first edge to \<open>tgt\<close>.\<close>

fun raise_weight :: "string \<Rightarrow> real \<Rightarrow> GraphEdge list \<Rightarrow> GraphEdge list" where
  "raise_weight tgt w [] = []"
| "raise_weight tgt w (e # es) =
     (if targetId e = tgt then e\<lparr>weight := max (weight e) w\<rparr> # es
      else e # raise_weight tgt w es)"

definition put_edge :: "string \<Rightarrow> EdgeType \<Rightarrow> real \<Rightarrow> GraphEdge list \<Rightarrow> GraphEdge list" where
  "put_edge tgt ty w edgeList =
     (case find (\<lambda>e. targetId e = tgt) edgeList of
        Some existing \<Rightarrow> raise_weight tgt w edgeList
      | None \<Rightarrow> edgeList @ [\<lparr>targetId = tgt, etype = ty, weight = w\<rparr>])"

definition addEdge :: "MemoryGraph \<Rightarrow> string \<Rightarrow> string \<Rightarrow> EdgeType \<Rightarrow> real \<Rightarrow> MemoryGraph" where
  "addEdge g sourceId tgt ty w =
     (if \<not> has (nodes g) sourceId \<or> \<not> has (nodes g) tgt then g
      else
        let edgeList = outgoing g sourceId;
            rev0 = (if has (reverseEdges g) tgt then reverseEdges g
                    else AList.update tgt [] (reverseEdges g))
        in g\<lparr>edges := AList.update sourceId (put_edge tgt ty w edgeList) (edges g),
              reverseEdges :=
                (case map_of rev0 tgt of
                   None \<Rightarrow> rev0
                 | Some s \<Rightarrow> AList.update tgt (set_add sourceId s) rev0),
              dirty := True\<rparr>)"

text \<open>The two loops of \<open>removeNode\<close>: purge \<open>k\<close> from the reverse entry of each of its
  targets, then filter the edges to \<open>k\<close> out of the list of each recorded source.\<close>

definition unlink_targets ::
  "string \<Rightarrow> GraphEdge list \<Rightarrow> (string \<times> string list) list \<Rightarrow> (string \<times> string list) list" where
  "unlink_targets k es r =
     fold (\<lambda>edge r. case map_of r (targetId edge) of
                      None \<Rightarrow> r
                    | Some s \<Rightarrow> AList.update (targetId edge) (set_delete k s) r) es r"

definition unlink_sources ::
  "string \<Rightarrow> string list \<Rightarrow> (string \<times> GraphEdge list) list \<Rightarrow> (string \<times> GraphEdge list) list" where
  "unlink_sources k srcs m =
     fold (\<lambda>sourceId m. case map_of m sourceId of
                          None \<Rightarrow> m
                        | Some srcEdges \<Rightarrow>
                            AList.update sourceId (filter (\<lambda>e. targetId e \<noteq> k) srcEdges) m) srcs m"

definition removeNode :: "MemoryGraph \<Rightarrow> string \<Rightarrow> MemoryGraph" where
  "removeNode g k =
     (if \<not> has (nodes g) k then g
      else
        let rev1 = unlink_targets k (outgoing g k) (reverseEdges g);
            edges1 = AList.delete k (edges g);
            edges2 = (case map_of rev1 k of
                        None \<Rightarrow> edges1
                      | Some inc \<Rightarrow> unlink_sources k inc edges1)
        in g\<lparr>nodes := AList.delete k (nodes g),
              edges := edges2,
              reverseEdges := AList.delete k rev1,
              pageRanks := AList.delete k (pageRanks g),
              communities := AList.delete k (communities g),
              dirty := True\<rparr>)"

text \<open>\<open>buildFromBackend\<close>, with the entries the backend's query returned as a parameter.\<close>

definition buildFromBackend :: "MemoryGraph \<Rightarrow> MemoryEntry list \<Rightarrow> MemoryGraph" where
  "buildFromBackend g entries =
     (let g1 = fold (\<lambda>e g. addNode g e) entries g;
          g2 = fold (\<lambda>e g. fold (\<lambda>refId g. addEdge g (entry_id e) refId Reference 1)
                                 (references e) g) entries g1
      in g2\<lparr>dirty := True\<rparr>)"

subsection \<open>computePageRank\<close>

definition rank_of :: "(string \<times> real) list \<Rightarrow> string \<Rightarrow> real" where
  "rank_of pr k = or_num (map_of pr k) 0"

text \<open>\<open>this.edges.get(sourceId)?.length || 1\<close>\<close>

definition outDegree :: "MemoryGraph \<Rightarrow> string \<Rightarrow> nat" where
  "outDegree g sourceId =
     (case map_of (edges g) sourceId of
        None \<Rightarrow> 1
      | Some l \<Rightarrow> if length l = 0 then 1 else length l)"

definition danglingNodes :: "MemoryGraph \<Rightarrow> string list" where
  "danglingNodes g =
     filter (\<lambda>nodeId. case map_of (edges g) nodeId of None \<Rightarrow> True | Some out \<Rightarrow> length out = 0)
       (map fst (nodes g))"

definition incoming_sum :: "MemoryGraph \<Rightarrow> (string \<times> real) list \<Rightarrow> string \<Rightarrow> real" where
  "incoming_sum g pr nodeId =
     (case map_of (reverseEdges g) nodeId of
        None \<Rightarrow> 0
      | Some inc \<Rightarrow>
          fold (\<lambda>sourceId sum. sum + rank_of pr sourceId / real (outDegree g sourceId)) inc 0)"

definition dangling_sum :: "string list \<Rightarrow> (string \<times> real) list \<Rightarrow> real" where
  "dangling_sum dn pr = fold (\<lambda>nodeId s. s + rank_of pr nodeId) dn 0"

definition new_rank :: "MemoryGraph \<Rightarrow> string list \<Rightarrow> (string \<times> real) list \<Rightarrow> string \<Rightarrow> real" where
  "new_rank g dn pr nodeId =
     (1 - pageRankDamping (config g)) / real (length (nodes g))
     + pageRankDamping (config g)
       * (incoming_sum g pr nodeId + dangling_sum dn pr / real (length (nodes g)))"

text \<open>One pass of the iteration: the new table and the largest change.\<close>

definition pr_iteration ::
  "MemoryGraph \<Rightarrow> string list \<Rightarrow> (string \<times> real) list \<Rightarrow> (string \<times> real) list \<times> real" where
  "pr_iteration g dn pr =
     fold (\<lambda>nodeId (newRanks, maxDelta).
             (AList.update nodeId (new_rank g dn pr nodeId) newRanks,
              max maxDelta \<bar>new_rank g dn pr nodeId - rank_of pr nodeId\<bar>))
       (map fst (nodes g)) ([], 0)"

text \<open>The loop \<open>for (iter = 0; iter < pageRankIterations; iter++)\<close> with its \<open>break\<close>:
  the first argument counts the passes still allowed, the second the passes made.\<close>

fun pr_loop ::
  "nat \<Rightarrow> nat \<Rightarrow> MemoryGraph \<Rightarrow> string list \<Rightarrow> (string \<times> real) list \<Rightarrow> (string \<times> real) list \<times> nat" where
  "pr_loop 0 iterations g dn pr = (pr, iterations)"
| "pr_loop (Suc n) iterations g dn pr =
     (case pr_iteration g dn pr of
        (newRanks, maxDelta) \<Rightarrow>
          if maxDelta < pageRankConvergence (config g) then (newRanks, Suc iterations)
          else pr_loop n (Suc iterations) g dn newRanks)"

definition init_ranks :: "MemoryGraph \<Rightarrow> (string \<times> real) list" where
  "init_ranks g =
     fold (\<lambda>nodeId pr. AList.update nodeId (1 / real (length (nodes g))) pr)
       (map fst (nodes g)) (pageRanks g)"

text \<open>The new state, the returned table and the iteration count of the notification.\<close>

definition computePageRank :: "MemoryGraph \<Rightarrow> MemoryGraph \<times> (string \<times> real) list \<times> nat" where
  "computePageRank g =
     (if length (nodes g) = 0 then (g\<lparr>dirty := False\<rparr>, [], 0)
      else
        case pr_loop (nat (pageRankIterations (config g))) 0 g (danglingNodes g) (init_ranks g) of
          (pr, iterations) \<Rightarrow> (g\<lparr>pageRanks := pr, dirty := False\<rparr>, pr, iterations))"

subsection \<open>detectCommunities\<close>

text \<open>
  \<open>shuffleArray\<close> draws \<open>j = Math.floor(Math.random() * (i + 1))\<close> for \<open>i\<close> from the last
  index down to 1. The random source is a parameter: \<open>draw i\<close> is the number drawn at
  index \<open>i\<close>, reduced into \<open>0..i\<close>.
\<close>

definition shuffleArray :: "(nat \<Rightarrow> nat) \<Rightarrow> 'a list \<Rightarrow> 'a list" where
  "shuffleArray draw arr =
     fold (\<lambda>i shuffled. let j = draw i mod (i + 1)
                         in shuffled[i := shuffled ! j, j := shuffled ! i])
       (rev [1..<length arr]) arr"

definition tally :: "string \<Rightarrow> real \<Rightarrow> (string \<times> real) list \<Rightarrow> (string \<times> real) list" where
  "tally lbl w labelCounts = AList.update lbl (or_num (map_of labelCounts lbl) 0 + w) labelCounts"

definition label_counts ::
  "MemoryGraph \<Rightarrow> (string \<times> string) list \<Rightarrow> string \<Rightarrow> (string \<times> real) list" where
  "label_counts g labels nodeId =
     (let lc1 = fold (\<lambda>edge lc. case map_of labels (targetId edge) of
                                  None \<Rightarrow> lc
                                | Some lbl \<Rightarrow> tally lbl (weight edge) lc) (outgoing g nodeId) []
      in case map_of (reverseEdges g) nodeId of
           None \<Rightarrow> lc1
         | Some inc \<Rightarrow>
             fold (\<lambda>sourceId lc. case map_of labels sourceId of
                                   None \<Rightarrow> lc
                                 | Some lbl \<Rightarrow> tally lbl 1 lc) inc lc1)"

text \<open>The scan \<open>if (count > maxCount)\<close> from \<open>(labels.get(nodeId), 0)\<close>.\<close>

definition max_label :: "string option \<Rightarrow> (string \<times> real) list \<Rightarrow> string option \<times> real" where
  "max_label cur labelCounts =
     fold (\<lambda>(label, count) (maxLabel, maxCount).
             if count > maxCount then (Some label, count) else (maxLabel, maxCount))
       labelCounts (cur, 0)"

definition visit ::
  "MemoryGraph \<Rightarrow> string \<Rightarrow> (string \<times> string) list \<times> bool \<Rightarrow> (string \<times> string) list \<times> bool" where
  "visit g nodeId st =
     (case st of (labels, changed) \<Rightarrow>
        let labelCounts = label_counts g labels nodeId
        in if length labelCounts > 0 then
             (case fst (max_label (map_of labels nodeId) labelCounts) of
                Some maxLabel \<Rightarrow>
                  if Some maxLabel \<noteq> map_of labels nodeId
                  then (AList.update nodeId maxLabel labels, True)
                  else (labels, changed)
              | None \<Rightarrow> (labels, changed))
           else (labels, changed))"

text \<open>The loop \<open>for (iter = 0; iter < 20; iter++)\<close> with its \<open>break\<close>: the first argument
  counts the passes still allowed, the second the passes begun so far; \<open>rnd iter\<close> is the
  random source of the shuffle of pass \<open>iter\<close>. The result is the labels and the number of
  passes made.\<close>

fun lp_loop ::
  "nat \<Rightarrow> nat \<Rightarrow> MemoryGraph \<Rightarrow> (nat \<Rightarrow> nat \<Rightarrow> nat) \<Rightarrow> (string \<times> string) list
     \<Rightarrow> (string \<times> string) list \<times> nat" where
  "lp_loop 0 iter g rnd labels = (labels, iter)"
| "lp_loop (Suc n) iter g rnd labels =
     (case fold (visit g) (shuffleArray (rnd iter) (map fst (nodes g))) (labels, False) of
        (labels', changed) \<Rightarrow>
          if \<not> changed then (labels', Suc iter)
          else lp_loop n (Suc iter) g rnd labels')"

definition init_labels :: "MemoryGraph \<Rightarrow> (string \<times> string) list" where
  "init_labels g = fold (\<lambda>nodeId labels. AList.update nodeId nodeId labels) (map fst (nodes g)) []"

text \<open>The new state, the returned labels and the number of passes made.\<close>

definition detectCommunities ::
  "MemoryGraph \<Rightarrow> (nat \<Rightarrow> nat \<Rightarrow> nat) \<Rightarrow> MemoryGraph \<times> (string \<times> string) list \<times> nat" where
  "detectCommunities g rnd =
     (case lp_loop 20 0 g rnd (init_labels g) of
        (labels, passes) \<Rightarrow> (g\<lparr>communities := labels\<rparr>, labels, passes))"

subsection \<open>rankWithGraph\<close>

text \<open>
  \<open>Array.prototype.sort\<close> with the comparator \<open>b.combinedScore - a.combinedScore\<close> is a
  stable sort by decreasing combined score: \<open>sort_key\<close> on the negated score.
\<close>

definition rank_result :: "MemoryGraph \<Rightarrow> real \<Rightarrow> SearchResult \<Rightarrow> RankedResult" where
  "rank_result g alpha result =
     (let N = (if length (nodes g) = 0 then 1 else length (nodes g));
          pr = rank_of (pageRanks g) (entry_id (sr_entry result))
      in \<lparr>entry = sr_entry result, score = sr_score result, pageRank = pr,
          combinedScore = alpha * sr_score result + (1 - alpha) * (pr * real N),
          community = map_of (communities g) (entry_id (sr_entry result))\<rparr>)"

definition rankWithGraph ::
  "MemoryGraph \<Rightarrow> SearchResult list \<Rightarrow> real \<Rightarrow> MemoryGraph \<times> RankedResult list" where
  "rankWithGraph g searchResults alpha =
     (let g' = (if dirty g then fst (computePageRank g) else g)
      in (g', sort_key (\<lambda>r. - combinedScore r) (map (rank_result g' alpha) searchResults)))"

subsection \<open>Reachable states and the structural invariant\<close>

text \<open>The states a caller can produce through the public methods. \<open>addSimilarityEdges\<close>
  changes the state only through calls of \<open>addEdge\<close>, \<open>getTopNodes\<close> only through
  \<open>computePageRank\<close>.\<close>

inductive reachable :: "MemoryGraph \<Rightarrow> bool" where
  r_new: "reachable (new_graph cfg)"
| r_addNode: "reachable g \<Longrightarrow> reachable (addNode g e)"
| r_addEdge: "reachable g \<Longrightarrow> reachable (addEdge g s t ty w)"
| r_removeNode: "reachable g \<Longrightarrow> reachable (removeNode g k)"
| r_build: "reachable g \<Longrightarrow> reachable (buildFromBackend g entries)"
| r_pageRank: "reachable g \<Longrightarrow> reachable (fst (computePageRank g))"
| r_communities: "reachable g \<Longrightarrow> reachable (fst (detectCommunities g rnd))"
| r_rank: "reachable g \<Longrightarrow> reachable (fst (rankWithGraph g rs alpha))"

definition graph_inv :: "MemoryGraph \<Rightarrow> bool" where
  "graph_inv g \<longleftrightarrow>
     distinct (map fst (nodes g))
     \<and> (\<forall>s e. e \<in> set (outgoing g s) \<longrightarrow> has (nodes g) s \<and> has (nodes g) (targetId e))
     \<and> (\<forall>s t. s \<in> set (incoming g t) \<longleftrightarrow> t \<in> set (map targetId (outgoing g s)))
     \<and> (\<forall>s. distinct (map targetId (outgoing g s)))
     \<and> (\<forall>t. distinct (incoming g t))
     \<and> (\<forall>k. has (edges g) k \<longrightarrow> has (nodes g) k)
     \<and> (\<forall>k. has (reverseEdges g) k \<longrightarrow> has (nodes g) k)
     \<and> (\<forall>k. has (pageRanks g) k \<longrightarrow> has (nodes g) k)
     \<and> (\<forall>k. has (communities g) k \<longrightarrow> has (nodes g) k)"

subsection \<open>Example graphs\<close>

definition ex_entry :: "string \<Rightarrow> string list \<Rightarrow> MemoryEntry" where
  "ex_entry k refs =
     \<lparr>entry_id = k, references = refs, metadata = None, entry_accessCount = 0, entry_createdAt = 0\<rparr>"

definition ex_graph :: MemoryGraph where
  "ex_graph = buildFromBackend (new_graph DEFAULT_CONFIG)
     [ex_entry ''a'' [''b''], ex_entry ''b'' [''a''], ex_entry ''c'' []]"

definition ex_ranked :: MemoryGraph where
  "ex_ranked = fst (computePageRank ex_graph)"

definition ex_zero_confidence :: MemoryEntry where
  "ex_zero_confidence =
     \<lparr>entry_id = ''a'', references = [],
      metadata = Some \<lparr>md_category = Some ''note'', md_confidence = Some 0\<rparr>,
      entry_accessCount = 3, entry_createdAt = 7\<rparr>"

subsection \<open>The rank formula in the words of the specification\<close>

text \<open>
  The new rank of \<open>v\<close> from the current table: the sources are the nodes with an edge to
  \<open>v\<close>, the out-degree is the length of the edge list, the dangling nodes are the nodes
  with an empty edge list, and a node without an entry in the table has rank 0.
\<close>

definition spec_rank :: "(string \<times> real) list \<Rightarrow> string \<Rightarrow> real" where
  "spec_rank pr s = (case map_of pr s of None \<Rightarrow> 0 | Some r \<Rightarrow> r)"

definition spec_incoming_sum :: "MemoryGraph \<Rightarrow> (string \<times> real) list \<Rightarrow> string \<Rightarrow> real" where
  "spec_incoming_sum g pr v =
     sum_list (map (\<lambda>s. spec_rank pr s / real (length (outgoing g s)))
                   (filter (\<lambda>s. hasEdge g s v) (map fst (nodes g))))"

definition spec_dangling_sum :: "MemoryGraph \<Rightarrow> (string \<times> real) list \<Rightarrow> real" where
  "spec_dangling_sum g pr =
     sum_list (map (spec_rank pr) (filter (\<lambda>s. length (outgoing g s) = 0) (map fst (nodes g))))"

definition spec_new_rank :: "MemoryGraph \<Rightarrow> (string \<times> real) list \<Rightarrow> string \<Rightarrow> real" where
  "spec_new_rank g pr v =
     (1 - pageRankDamping (config g)) / real (length (nodes g))
     + pageRankDamping (config g)
       * (spec_incoming_sum g pr v + spec_dangling_sum g pr / real (length (nodes g)))"

text \<open>The same graph with every stored edge weight replaced: \<open>f s e\<close> is the new weight of
  the edge \<open>e\<close> in the list of \<open>s\<close>.\<close>

definition reweigh :: "(string \<Rightarrow> GraphEdge \<Rightarrow> real) \<Rightarrow> MemoryGraph \<Rightarrow> MemoryGraph" where
  "reweigh f g = g\<lparr>edges := AList.map_ran (\<lambda>s es. map (\<lambda>e. e\<lparr>weight := f s e\<rparr>) es) (edges g)\<rparr>"

subsection \<open>The blended score in the words of the specification\<close>

definition spec_ranked :: "MemoryGraph \<Rightarrow> real \<Rightarrow> SearchResult \<Rightarrow> RankedResult" where
  "spec_ranked g alpha r =
     \<lparr>entry = sr_entry r, score = sr_score r,
      pageRank = spec_rank (pageRanks g) (entry_id (sr_entry r)),
      combinedScore = alpha * sr_score r
        + (1 - alpha) * (spec_rank (pageRanks g) (entry_id (sr_entry r)) * real (length (nodes g))),
      community = map_of (communities g) (entry_id (sr_entry r))\<rparr>"

definition ex_two_pass :: MemoryGraph where
  "ex_two_pass = buildFromBackend (new_graph (DEFAULT_CONFIG\<lparr>pageRankIterations := 2\<rparr>))
     [ex_entry ''a'' [''b''], ex_entry ''b'' [''a''], ex_entry ''c'' []]"

definition ex_results :: "SearchResult list" where
  "ex_results =
     [\<lparr>sr_entry = ex_entry ''c'' [], sr_score = 1 / 2\<rparr>,
      \<lparr>sr_entry = ex_entry ''z'' [], sr_score = 1\<rparr>,
      \<lparr>sr_entry = ex_entry ''a'' [''b''], sr_score = 1 / 2\<rparr>]"

section \<open>Properties\<close>

subsection \<open>Association lists\<close>

lemma has_iff: "has m k \<longleftrightarrow> map_of m k \<noteq> None"
  by (simp add: has_def map_of_eq_None_iff)

lemma has_update: "has (AList.update k v m) k' \<longleftrightarrow> k' = k \<or> has m k'"
  by (auto simp: has_iff update_conv')

lemma has_delete: "has (AList.delete k m) k' \<longleftrightarrow> k' \<noteq> k \<and> has m k'"
  by (auto simp: has_iff delete_conv')

subsection \<open>The structural invariant is preserved\<close>

lemma outgoing_addNode: "outgoing (addNode g e) k = outgoing g k"
  by (auto simp: outgoing_def addNode_def update_conv' has_iff)

lemma incoming_addNode: "incoming (addNode g e) k = incoming g k"
  by (auto simp: incoming_def addNode_def update_conv' has_iff)

lemma has_nodes_addNode: "has (nodes g) k \<Longrightarrow> has (nodes (addNode g e)) k"
  by (auto simp: addNode_def has_update)

lemma graph_inv_addNode: "graph_inv g \<Longrightarrow> graph_inv (addNode g e)"
  unfolding graph_inv_def outgoing_addNode incoming_addNode
  apply (intro conjI)
          apply (simp add: addNode_def distinct_update)
         apply (blast intro: has_nodes_addNode)
        apply blast
       apply blast
      apply blast
     apply (auto simp: addNode_def has_update)
  done

lemma targets_raise_weight: "map targetId (raise_weight t w es) = map targetId es"
  by (induction es) auto

lemma targets_put_edge:
  "set (map targetId (put_edge t ty w es)) = insert t (set (map targetId es))"
  by (induction es) (auto simp: put_edge_def targets_raise_weight split: option.splits)

lemma target_in_put_edge:
  "e \<in> set (put_edge t ty w es) \<Longrightarrow> targetId e = t \<or> (\<exists>e' \<in> set es. targetId e' = targetId e)"
  using targets_put_edge [of t ty w es] by (metis (no_types, lifting) image_iff insert_iff list.set_map)

lemma distinct_put_edge:
  "distinct (map targetId es) \<Longrightarrow> distinct (map targetId (put_edge t ty w es))"
  by (auto simp: put_edge_def targets_raise_weight find_None_iff split: option.splits)

lemma outgoing_addEdge:
  "has (nodes g) s \<Longrightarrow> has (nodes g) t \<Longrightarrow>
   outgoing (addEdge g s t ty w) k = (if k = s then put_edge t ty w (outgoing g s) else outgoing g k)"
  by (simp add: addEdge_def Let_def outgoing_def update_conv')

lemma incoming_addEdge:
  "has (nodes g) s \<Longrightarrow> has (nodes g) t \<Longrightarrow>
   incoming (addEdge g s t ty w) k = (if k = t then set_add s (incoming g t) else incoming g k)"
  by (auto simp: addEdge_def Let_def incoming_def update_conv' has_iff split: option.splits)

lemma nodes_addEdge: "nodes (addEdge g s t ty w) = nodes g"
  by (simp add: addEdge_def Let_def)

lemma set_set_add: "set (set_add x s) = insert x (set s)"
  by (auto simp: set_add_def)

lemma distinct_set_add: "distinct s \<Longrightarrow> distinct (set_add x s)"
  by (auto simp: set_add_def)

lemma keys_addEdge:
  assumes hs: "has (nodes g) s" and ht: "has (nodes g) t"
  shows "has (edges (addEdge g s t ty w)) k \<longleftrightarrow> k = s \<or> has (edges g) k"
    and "has (reverseEdges (addEdge g s t ty w)) k \<longleftrightarrow> k = t \<or> has (reverseEdges g) k"
    and "pageRanks (addEdge g s t ty w) = pageRanks g"
    and "communities (addEdge g s t ty w) = communities g"
  using hs ht
  by (auto simp: addEdge_def Let_def has_update has_iff update_conv' split: option.splits)

lemma inv_ends:
  "graph_inv g \<Longrightarrow> e \<in> set (outgoing g s) \<Longrightarrow> has (nodes g) s \<and> has (nodes g) (targetId e)"
  unfolding graph_inv_def by blast

lemma inv_rev:
  "graph_inv g \<Longrightarrow> s \<in> set (incoming g t) \<longleftrightarrow> t \<in> set (map targetId (outgoing g s))"
  unfolding graph_inv_def by blast

lemma inv_distinct:
  "graph_inv g \<Longrightarrow> distinct (map targetId (outgoing g s))"
  "graph_inv g \<Longrightarrow> distinct (incoming g t)"
  "graph_inv g \<Longrightarrow> distinct (map fst (nodes g))"
  unfolding graph_inv_def by blast+

lemma inv_keys:
  "graph_inv g \<Longrightarrow> has (edges g) k \<Longrightarrow> has (nodes g) k"
  "graph_inv g \<Longrightarrow> has (reverseEdges g) k \<Longrightarrow> has (nodes g) k"
  "graph_inv g \<Longrightarrow> has (pageRanks g) k \<Longrightarrow> has (nodes g) k"
  "graph_inv g \<Longrightarrow> has (communities g) k \<Longrightarrow> has (nodes g) k"
  unfolding graph_inv_def by blast+

lemma graph_inv_addEdge:
  assumes inv: "graph_inv g" shows "graph_inv (addEdge g s t ty w)"
proof (cases "has (nodes g) s \<and> has (nodes g) t")
  case False
  then show ?thesis using assms by (auto simp: addEdge_def)
next
  case True
  then have hs: "has (nodes g) s" and ht: "has (nodes g) t" by auto
  note og = outgoing_addEdge [OF hs ht] and ic = incoming_addEdge [OF hs ht]
  note keys = keys_addEdge [OF hs ht]
  have ends: "has (nodes g) k \<and> has (nodes g) (targetId e)"
    if "e \<in> set (if k = s then put_edge t ty w (outgoing g s) else outgoing g k)" for k e
  proof (cases "k = s")
    case True
    with that have "e \<in> set (put_edge t ty w (outgoing g s))" by simp
    from target_in_put_edge [OF this] show ?thesis
      using hs ht True inv_ends [OF inv] by metis
  next
    case False
    with that show ?thesis using inv_ends [OF inv] by simp
  qed
  show ?thesis
    unfolding graph_inv_def og ic nodes_addEdge keys
    apply (intro conjI)
            apply (rule inv_distinct [OF inv])
           using ends apply blast
          apply (simp add: targets_put_edge set_set_add inv_rev [OF inv] del: set_map)
         apply (simp add: distinct_put_edge inv_distinct [OF inv])
        apply (simp add: distinct_set_add inv_distinct [OF inv])
       using inv_keys [OF inv] hs ht apply blast+
    done
qed

lemma map_of_unlink_targets:
  "map_of (unlink_targets k es r) t =
     (if t \<in> set (map targetId es) then map_option (removeAll k) (map_of r t) else map_of r t)"
  unfolding unlink_targets_def
proof (induction es arbitrary: r)
  case Nil
  then show ?case by simp
next
  case (Cons e es)
  then show ?case
    by (auto simp: update_conv' set_delete_def split: option.splits)
qed

lemma map_of_unlink_sources:
  "map_of (unlink_sources k srcs m) s =
     (if s \<in> set srcs then map_option (filter (\<lambda>e. targetId e \<noteq> k)) (map_of m s) else map_of m s)"
  unfolding unlink_sources_def
proof (induction srcs arbitrary: m)
  case Nil
  then show ?case by simp
next
  case (Cons e es)
  then show ?case
    by (auto simp: update_conv' split: option.splits)
qed

lemma has_unlink_targets: "has (unlink_targets k es r) t \<longleftrightarrow> has r t"
  by (simp add: has_iff map_of_unlink_targets)

lemma has_unlink_sources: "has (unlink_sources k srcs m) s \<longleftrightarrow> has m s"
  by (simp add: has_iff map_of_unlink_sources)

lemma filter_id_no_target:
  "k \<notin> set (map targetId es) \<Longrightarrow> filter (\<lambda>e. targetId e \<noteq> k) es = es"
  by (induction es) auto

lemma targets_filter:
  "set (map targetId (filter (\<lambda>e. targetId e \<noteq> k) es)) = set (map targetId es) - {k}"
  by (induction es) auto

lemma outgoing_removeNode:
  assumes inv: "graph_inv g" and hk: "has (nodes g) k"
  shows "outgoing (removeNode g k) s =
           (if s = k then [] else filter (\<lambda>e. targetId e \<noteq> k) (outgoing g s))"
proof (cases "s = k")
  case True
  then show ?thesis using hk
    by (auto simp: removeNode_def Let_def outgoing_def map_of_unlink_sources delete_conv'
        split: option.splits)
next
  case False
  have in_rev: "s \<in> set (incoming g k) \<longleftrightarrow> k \<in> set (map targetId (outgoing g s))"
    by (rule inv_rev [OF inv])
  show ?thesis
  proof (cases "k \<in> set (map targetId (outgoing g s))")
    case True
    with in_rev have "s \<in> set (incoming g k)" by simp
    then show ?thesis using hk False
      by (auto simp: removeNode_def Let_def outgoing_def incoming_def map_of_unlink_sources
          map_of_unlink_targets delete_conv' split: option.splits)
  next
    case nt: False
    with in_rev have "s \<notin> set (incoming g k)" by simp
    then show ?thesis using hk False filter_id_no_target [OF nt]
      by (auto simp: removeNode_def Let_def outgoing_def incoming_def map_of_unlink_sources
          map_of_unlink_targets delete_conv' split: option.splits)
  qed
qed

lemma incoming_removeNode:
  assumes inv: "graph_inv g" and hk: "has (nodes g) k"
  shows "incoming (removeNode g k) t = (if t = k then [] else removeAll k (incoming g t))"
proof (cases "t = k")
  case True
  then show ?thesis using hk
    by (simp add: removeNode_def Let_def incoming_def delete_conv')
next
  case False
  have in_rev: "k \<in> set (incoming g t) \<longleftrightarrow> t \<in> set (map targetId (outgoing g k))"
    by (rule inv_rev [OF inv])
  show ?thesis
  proof (cases "t \<in> set (map targetId (outgoing g k))")
    case True
    then show ?thesis using hk False
      by (auto simp: removeNode_def Let_def incoming_def map_of_unlink_targets delete_conv'
          split: option.splits)
  next
    case nt: False
    with in_rev have "k \<notin> set (incoming g t)" by simp
    then have "removeAll k (incoming g t) = incoming g t" by simp
    then show ?thesis using hk False nt
      by (auto simp: removeNode_def Let_def incoming_def map_of_unlink_targets delete_conv'
          split: option.splits)
  qed
qed

lemma keys_removeNode:
  assumes hk: "has (nodes g) k"
  shows "has (nodes (removeNode g k)) x \<longleftrightarrow> x \<noteq> k \<and> has (nodes g) x"
    and "has (edges (removeNode g k)) x \<longleftrightarrow> x \<noteq> k \<and> has (edges g) x"
    and "has (reverseEdges (removeNode g k)) x \<longleftrightarrow> x \<noteq> k \<and> has (reverseEdges g) x"
    and "has (pageRanks (removeNode g k)) x \<longleftrightarrow> x \<noteq> k \<and> has (pageRanks g) x"
    and "has (communities (removeNode g k)) x \<longleftrightarrow> x \<noteq> k \<and> has (communities g) x"
  using hk
  by (auto simp: removeNode_def Let_def has_delete has_unlink_targets has_unlink_sources
      split: option.splits)

lemma graph_inv_removeNode:
  assumes inv: "graph_inv g" shows "graph_inv (removeNode g k)"
proof (cases "has (nodes g) k")
  case False
  then show ?thesis using inv by (simp add: removeNode_def)
next
  case hk: True
  note og = outgoing_removeNode [OF inv hk] and ic = incoming_removeNode [OF inv hk]
  note keys = keys_removeNode [OF hk]
  have dn: "distinct (map fst (nodes (removeNode g k)))"
    using hk inv_distinct(3) [OF inv] by (simp add: removeNode_def Let_def distinct_delete)
  have rv: "s \<in> set (if t = k then [] else removeAll k (incoming g t)) \<longleftrightarrow>
            t \<in> set (map targetId (if s = k then [] else filter (\<lambda>e. targetId e \<noteq> k) (outgoing g s)))"
    for s t
    unfolding targets_filter if_distrib [of set] if_distrib [of "map targetId"]
    using inv_rev [OF inv, of s t] inv_rev [OF inv, of k t] by auto
  show ?thesis
    unfolding graph_inv_def og ic keys
    apply (intro conjI)
            apply (rule dn)
           using inv_ends [OF inv] apply (auto split: if_splits)[1]
          using rv apply blast
         using inv_distinct(1) [OF inv] apply (simp add: distinct_map_filter)
        using inv_distinct(2) [OF inv] apply (simp add: distinct_removeAll)
       using inv_keys [OF inv] apply blast+
    done
qed

lemma fold_preserves:
  assumes "\<And>x a. P a \<Longrightarrow> P (f x a)" and "P a"
  shows "P (fold f xs a)"
  using assms(2) by (induction xs arbitrary: a) (auto intro: assms(1))

lemma graph_inv_dirty: "graph_inv (g\<lparr>dirty := b\<rparr>) = graph_inv g"
  by (simp add: graph_inv_def outgoing_def incoming_def)

lemma graph_inv_buildFromBackend:
  assumes "graph_inv g" shows "graph_inv (buildFromBackend g entries)"
proof -
  have 1: "graph_inv (fold (\<lambda>e g. addNode g e) entries g)"
    by (rule fold_preserves) (auto intro: graph_inv_addNode assms)
  have 2: "graph_inv (fold (\<lambda>refId g. addEdge g k refId Reference 1) refs g')"
    if "graph_inv g'" for g' k refs
    by (rule fold_preserves) (auto intro: graph_inv_addEdge that)
  have "graph_inv (fold (\<lambda>e g. fold (\<lambda>refId g. addEdge g (entry_id e) refId Reference 1)
                                 (references e) g) entries (fold (\<lambda>e g. addNode g e) entries g))"
    by (rule fold_preserves) (auto intro: 1 2)
  then show ?thesis
    by (simp add: buildFromBackend_def Let_def graph_inv_dirty)
qed

lemma map_of_fold_update:
  "map_of (fold (\<lambda>k m. AList.update k (f k) m) ks m0) x =
     (if x \<in> set ks then Some (f x) else map_of m0 x)"
  by (induction ks arbitrary: m0) (auto simp: update_conv')

lemma fst_fold_pair:
  "fst (fold (\<lambda>k (m, d). (AList.update k (f k) m, h k d)) ks (m0, d0)) =
     fold (\<lambda>k m. AList.update k (f k) m) ks m0"
  by (induction ks arbitrary: m0 d0) auto

lemma map_of_pr_iteration:
  "map_of (fst (pr_iteration g dn pr)) v =
     (if has (nodes g) v then Some (new_rank g dn pr v) else None)"
  unfolding pr_iteration_def fst_fold_pair map_of_fold_update
  by (simp add: has_def)

lemma map_of_init_ranks:
  "map_of (init_ranks g) v =
     (if has (nodes g) v then Some (1 / real (length (nodes g))) else map_of (pageRanks g) v)"
  unfolding init_ranks_def map_of_fold_update by (simp add: has_def)

lemma has_pr_loop:
  "(\<And>k. has pr k \<Longrightarrow> has (nodes g) k) \<Longrightarrow> has (fst (pr_loop n i g dn pr)) k \<Longrightarrow> has (nodes g) k"
proof (induction n arbitrary: i pr)
  case 0
  then show ?case by simp
next
  case (Suc n)
  obtain nr md where it: "pr_iteration g dn pr = (nr, md)" by (cases "pr_iteration g dn pr")
  then have nr: "nr = fst (pr_iteration g dn pr)" by simp
  have hnr: "\<And>k. has nr k \<Longrightarrow> has (nodes g) k"
    unfolding nr by (simp add: has_iff map_of_pr_iteration split: if_splits)
  show ?case
  proof (cases "md < pageRankConvergence (config g)")
    case True
    with Suc.prems(2) it hnr show ?thesis by simp
  next
    case False
    with Suc.prems(2) it have "has (fst (pr_loop n (Suc i) g dn nr)) k" by simp
    with Suc.IH [of nr "Suc i"] hnr show ?thesis by blast
  qed
qed

lemma computePageRank_frame:
  "nodes (fst (computePageRank g)) = nodes g"
  "edges (fst (computePageRank g)) = edges g"
  "reverseEdges (fst (computePageRank g)) = reverseEdges g"
  "communities (fst (computePageRank g)) = communities g"
  "config (fst (computePageRank g)) = config g"
  "dirty (fst (computePageRank g)) = False"
  by (auto simp: computePageRank_def split: prod.splits)

lemma graph_inv_computePageRank:
  assumes inv: "graph_inv g" shows "graph_inv (fst (computePageRank g))"
proof -
  have pr: "has (pageRanks (fst (computePageRank g))) k \<Longrightarrow> has (nodes g) k" for k
  proof (cases "length (nodes g) = 0")
    case True
    then show "has (pageRanks (fst (computePageRank g))) k \<Longrightarrow> has (nodes g) k"
      using inv_keys(3) [OF inv] by (simp add: computePageRank_def)
  next
    case False
    have init: "\<And>k. has (init_ranks g) k \<Longrightarrow> has (nodes g) k"
      using inv_keys(3) [OF inv] by (auto simp: has_iff map_of_init_ranks split: if_splits)
    assume "has (pageRanks (fst (computePageRank g))) k"
    with False
    have "has (fst (pr_loop (nat (pageRankIterations (config g))) 0 g (danglingNodes g) (init_ranks g))) k"
      by (simp add: computePageRank_def split: prod.splits)
    from has_pr_loop [OF init this] show "has (nodes g) k" .
  qed
  show ?thesis
    using inv pr unfolding graph_inv_def outgoing_def incoming_def computePageRank_frame
    by blast
qed

lemma length_shuffle_step:
  "length (fold (\<lambda>i shuffled. let j = d i mod (i + 1)
                         in shuffled[i := shuffled ! j, j := shuffled ! i]) is xs) = length xs"
  by (induction "is" arbitrary: xs) (auto simp: Let_def)

lemma set_shuffle_step:
  "\<forall>i \<in> set is. i < length xs \<Longrightarrow>
   set (fold (\<lambda>i shuffled. let j = d i mod (i + 1)
                         in shuffled[i := shuffled ! j, j := shuffled ! i]) is xs) = set xs"
proof (induction "is" arbitrary: xs)
  case Nil
  then show ?case by simp
next
  case (Cons i "is")
  have j: "d i mod (i + 1) < length xs"
    using Cons.prems by (metis Suc_eq_plus1 less_Suc_eq_le list.set_intros(1) mod_less_divisor order_le_less_trans zero_less_Suc)
  have i: "i < length xs" using Cons.prems by simp
  have "set (xs[i := xs ! (d i mod (i + 1)), d i mod (i + 1) := xs ! i]) = set xs"
    using set_swap [OF i j] .
  with Cons show ?case by (simp add: Let_def)
qed

lemma set_shuffleArray: "set (shuffleArray d arr) = set arr"
  unfolding shuffleArray_def by (rule set_shuffle_step) auto

subsection \<open>The invariant holds in every reachable state\<close>

lemma has_visit: "has (fst (visit g n st)) k \<Longrightarrow> k = n \<or> has (fst st) k"
  by (auto simp: visit_def Let_def has_update split: prod.splits option.splits if_splits)

lemma has_fold_visit: "has (fst (fold (visit g) ns st)) k \<Longrightarrow> k \<in> set ns \<or> has (fst st) k"
proof (induction ns arbitrary: st)
  case Nil
  then show ?case by simp
next
  case (Cons n ns)
  then have "k \<in> set ns \<or> has (fst (visit g n st)) k" by simp
  then show ?case using has_visit [of g n st k] by auto
qed

lemma has_lp_loop:
  "has (fst (lp_loop n i g rnd labels)) k \<Longrightarrow> has (nodes g) k \<or> has labels k"
proof (induction n arbitrary: i labels)
  case 0
  then show ?case by simp
next
  case (Suc n)
  let ?ns = "shuffleArray (rnd i) (map fst (nodes g))"
  obtain l' c where f: "fold (visit g) ?ns (labels, False) = (l', c)"
    by (cases "fold (visit g) ?ns (labels, False)")
  have l': "has l' k \<Longrightarrow> has (nodes g) k \<or> has labels k" for k
    using has_fold_visit [of g ?ns "(labels, False)" k] f
    by (auto simp: set_shuffleArray has_def)
  show ?case
  proof (cases c)
    case True
    with Suc.prems f have "has (fst (lp_loop n (Suc i) g rnd l')) k" by simp
    from Suc.IH [OF this] l' show ?thesis by blast
  next
    case False
    with Suc.prems f l' show ?thesis by simp
  qed
qed

lemma map_of_init_labels:
  "map_of (init_labels g) v = (if has (nodes g) v then Some v else None)"
  unfolding init_labels_def map_of_fold_update by (simp add: has_def)

lemma detectCommunities_frame:
  "nodes (fst (detectCommunities g rnd)) = nodes g"
  "edges (fst (detectCommunities g rnd)) = edges g"
  "reverseEdges (fst (detectCommunities g rnd)) = reverseEdges g"
  "pageRanks (fst (detectCommunities g rnd)) = pageRanks g"
  "config (fst (detectCommunities g rnd)) = config g"
  "dirty (fst (detectCommunities g rnd)) = dirty g"
  by (auto simp: detectCommunities_def split: prod.splits)

lemma graph_inv_detectCommunities:
  assumes inv: "graph_inv g" shows "graph_inv (fst (detectCommunities g rnd))"
proof -
  have "has (communities (fst (detectCommunities g rnd))) k \<Longrightarrow> has (nodes g) k" for k
  proof -
    assume "has (communities (fst (detectCommunities g rnd))) k"
    then have "has (fst (lp_loop 20 0 g rnd (init_labels g))) k"
      by (simp add: detectCommunities_def split: prod.splits)
    from has_lp_loop [OF this] show "has (nodes g) k"
      by (auto simp: has_iff map_of_init_labels split: if_splits)
  qed
  then show ?thesis
    using inv unfolding graph_inv_def outgoing_def incoming_def detectCommunities_frame
    by blast
qed

lemma fst_rankWithGraph:
  "fst (rankWithGraph g rs alpha) = (if dirty g then fst (computePageRank g) else g)"
  by (simp add: rankWithGraph_def Let_def)

lemma graph_inv_new: "graph_inv (new_graph cfg)"
  by (simp add: graph_inv_def new_graph_def outgoing_def incoming_def has_def)

lemma reachable_inv: "reachable g \<Longrightarrow> graph_inv g"
proof (induction rule: reachable.induct)
  case (r_new cfg)
  show ?case by (rule graph_inv_new)
next
  case (r_rank g rs alpha)
  then show ?case by (simp add: fst_rankWithGraph graph_inv_computePageRank)
qed (simp_all add: graph_inv_addNode graph_inv_addEdge graph_inv_removeNode
      graph_inv_buildFromBackend graph_inv_computePageRank graph_inv_detectCommunities)

subsection \<open>Label propagation\<close>

lemma label_counts_isolated:
  "outgoing g v = [] \<Longrightarrow> incoming g v = [] \<Longrightarrow> label_counts g labels v = []"
  by (auto simp: label_counts_def incoming_def Let_def split: option.splits)

lemma visit_isolated:
  assumes "outgoing g v = []" "incoming g v = []"
  shows "map_of (fst (visit g n st)) v = map_of (fst st) v"
proof (cases "n = v")
  case True
  then show ?thesis using label_counts_isolated [OF assms]
    by (simp add: visit_def Let_def split: prod.splits)
next
  case False
  then show ?thesis
    by (auto simp: visit_def Let_def update_conv' split: prod.splits option.splits)
qed

lemma fold_visit_isolated:
  assumes "outgoing g v = []" "incoming g v = []"
  shows "map_of (fst (fold (visit g) ns st)) v = map_of (fst st) v"
  by (induction ns arbitrary: st) (simp_all add: visit_isolated [OF assms])

lemma lp_loop_isolated:
  assumes "outgoing g v = []" "incoming g v = []"
  shows "map_of (fst (lp_loop n i g rnd labels)) v = map_of labels v"
proof (induction n arbitrary: i labels)
  case 0
  show ?case by simp
next
  case (Suc n)
  let ?ns = "shuffleArray (rnd i) (map fst (nodes g))"
  obtain l' c where f: "fold (visit g) ?ns (labels, False) = (l', c)"
    by (cases "fold (visit g) ?ns (labels, False)")
  have "map_of l' v = map_of labels v"
    using fold_visit_isolated [OF assms, of ?ns "(labels, False)"] f by simp
  then show ?case using f Suc.IH [of "Suc i" l'] by simp
qed

lemma lp_loop_passes: "snd (lp_loop n i g rnd labels) \<le> n + i"
proof (induction n arbitrary: i labels)
  case 0
  show ?case by simp
next
  case (Suc n)
  show ?case using Suc.IH [of "Suc i"]
    by (auto split: prod.splits)
qed

text \<open>
  C8: whatever the visit orders drawn, \<open>detectCommunities\<close> makes at most 20 passes (it is a
  total function, so it returns), and a node without outgoing edges and without recorded
  incoming sources has its own id as label in the returned table and in the stored one.
\<close>

theorem communities_bounded_isolated:
  "snd (snd (detectCommunities g rnd)) \<le> 20
   \<and> (has (nodes g) v \<and> outgoing g v = [] \<and> incoming g v = []
        \<longrightarrow> map_of (fst (snd (detectCommunities g rnd))) v = Some v
          \<and> map_of (communities (fst (detectCommunities g rnd))) v = Some v)"
proof -
  obtain labels passes where l: "lp_loop 20 0 g rnd (init_labels g) = (labels, passes)"
    by (cases "lp_loop 20 0 g rnd (init_labels g)")
  have "passes \<le> 20" using lp_loop_passes [of 20 0 g rnd "init_labels g"] l by simp
  moreover have "map_of labels v = Some v"
    if "has (nodes g) v" "outgoing g v = []" "incoming g v = []"
    using lp_loop_isolated [OF that(2,3), of 20 0 rnd "init_labels g"] l that(1)
    by (simp add: map_of_init_labels)
  ultimately show ?thesis by (simp add: detectCommunities_def l)
qed

theorem communities_bounded_isolated_witness:
  "has (nodes ex_graph) ''c'' \<and> outgoing ex_graph ''c'' = [] \<and> incoming ex_graph ''c'' = []
   \<and> map_of (communities (fst (detectCommunities ex_graph (\<lambda>_ _. 0)))) ''c'' = Some ''c''"
proof -
  have h: "has (nodes ex_graph) ''c'' \<and> outgoing ex_graph ''c'' = [] \<and> incoming ex_graph ''c'' = []"
    by code_simp
  with communities_bounded_isolated [of ex_graph "\<lambda>_ _. 0" "''c''"] show ?thesis by blast
qed

subsection \<open>Edges\<close>

lemma hasEdge_iff: "hasEdge g s t \<longleftrightarrow> t \<in> set (map targetId (outgoing g s))"
  by (auto simp: hasEdge_def outgoing_def list_ex_iff split: option.splits)

lemma reachable_ex_graph: "reachable ex_graph"
  unfolding ex_graph_def by (intro reachable.intros)

lemma addEdge_absent: "\<not> has (nodes g) s \<or> \<not> has (nodes g) t \<Longrightarrow> addEdge g s t ty w = g"
  by (auto simp: addEdge_def)

lemma hasEdge_addEdge:
  "has (nodes g) s \<Longrightarrow> has (nodes g) t \<Longrightarrow> hasEdge (addEdge g s t ty w) s t"
  by (simp add: hasEdge_iff outgoing_addEdge targets_put_edge del: set_map)

lemma filter_raise_weight:
  "distinct (map targetId es) \<Longrightarrow> find (\<lambda>e. targetId e = t) es = Some e0 \<Longrightarrow>
   filter (\<lambda>e. targetId e = t) (raise_weight t w es) = [e0\<lparr>weight := max (weight e0) w\<rparr>]"
proof (induction es)
  case Nil
  then show ?case by simp
next
  case (Cons e es)
  show ?case
  proof (cases "targetId e = t")
    case True
    with Cons.prems have "e = e0" and "t \<notin> set (map targetId es)" by auto
    then have "filter (\<lambda>e. targetId e = t) es = []" by (auto simp: filter_empty_conv)
    with True \<open>e = e0\<close> show ?thesis by simp
  next
    case False
    with Cons show ?thesis by simp
  qed
qed

lemma raise_weight_same:
  "find (\<lambda>e. targetId e = t) es = Some e0 \<Longrightarrow> w \<le> weight e0 \<Longrightarrow> raise_weight t w es = es"
  by (induction es) (auto simp: max_def)

lemma find_outgoing_Some:
  assumes "find (\<lambda>e. targetId e = t) (outgoing g s) = Some e0"
  shows "e0 \<in> set (outgoing g s)" "targetId e0 = t" "map_of (edges g) s = Some (outgoing g s)"
  using assms by (auto simp: find_Some_iff outgoing_def split: option.splits)

lemma addEdge_unchanged:
  assumes inv: "graph_inv g"
    and f: "find (\<lambda>e. targetId e = t) (outgoing g s) = Some e0"
    and w: "w \<le> weight e0"
  shows "addEdge g s t ty w = g\<lparr>dirty := True\<rparr>"
proof -
  note e0 = find_outgoing_Some [OF f]
  have hs: "has (nodes g) s" and ht: "has (nodes g) t"
    using inv_ends [OF inv e0(1)] e0(2) by auto
  have pe: "put_edge t ty w (outgoing g s) = outgoing g s"
    by (simp add: put_edge_def f raise_weight_same [OF f w])
  have "s \<in> set (incoming g t)"
    using inv_rev [OF inv, of s t] e0(1,2) by force
  then obtain inc where inc: "map_of (reverseEdges g) t = Some inc" "s \<in> set inc"
    by (cases "map_of (reverseEdges g) t") (auto simp: incoming_def)
  then have hr: "has (reverseEdges g) t" by (simp add: has_iff)
  show ?thesis
    using hs ht hr inc
    by (simp add: addEdge_def Let_def pe set_add_def update_triv e0(3))
qed

text \<open>
  C2: in every reachable state the reverse index records \<open>s\<close> as a source of \<open>t\<close> exactly
  when the edge list of \<open>s\<close> has an edge to \<open>t\<close>; after \<open>removeNode g x\<close> no edge list has
  an edge to \<open>x\<close>, \<open>x\<close> is no key of the reverse index and no member of any of its sets.
\<close>

theorem reverse_index_consistent:
  "reachable g \<Longrightarrow>
     (\<forall>s t. (s \<in> set (incoming g t)) = hasEdge g s t)
     \<and> (\<forall>s. x \<notin> set (map targetId (outgoing (removeNode g x) s)))
     \<and> \<not> has (reverseEdges (removeNode g x)) x
     \<and> \<not> has (edges (removeNode g x)) x
     \<and> \<not> has (nodes (removeNode g x)) x
     \<and> (\<forall>t. x \<notin> set (incoming (removeNode g x) t))"
proof -
  assume r: "reachable g"
  then have inv: "graph_inv g" by (rule reachable_inv)
  have inv': "graph_inv (removeNode g x)" by (rule graph_inv_removeNode [OF inv])
  have nx: "\<not> has (nodes (removeNode g x)) x"
  proof (cases "has (nodes g) x")
    case True
    then show ?thesis by (simp add: keys_removeNode)
  next
    case False
    then show ?thesis by (simp add: removeNode_def)
  qed
  have 1: "x \<notin> set (map targetId (outgoing (removeNode g x) s))" for s
    using inv_ends [OF inv', of _ s] nx by auto
  have 2: "x \<notin> set (incoming (removeNode g x) t)" for t
  proof
    assume "x \<in> set (incoming (removeNode g x) t)"
    then have "t \<in> set (map targetId (outgoing (removeNode g x) x))"
      using inv_rev [OF inv'] by blast
    then show False using inv_ends [OF inv', of _ x] nx by auto
  qed
  show ?thesis
    using inv_rev [OF inv] 1 2 nx inv_keys(1,2) [OF inv', of x]
    by (auto simp: hasEdge_iff simp del: set_map)
qed

theorem reverse_index_consistent_witness:
  "reachable ex_graph
   \<and> ''b'' \<in> set (incoming ex_graph ''a'') \<and> hasEdge ex_graph ''b'' ''a''
   \<and> ''b'' \<notin> set (map targetId (outgoing (removeNode ex_graph ''b'') ''a''))
   \<and> \<not> has (reverseEdges (removeNode ex_graph ''b'')) ''b''
   \<and> ''b'' \<notin> set (incoming (removeNode ex_graph ''b'') ''a'')"
proof -
  have "hasEdge ex_graph ''b'' ''a''" by code_simp
  with reverse_index_consistent [OF reachable_ex_graph, of "''b''"] reachable_ex_graph
  show ?thesis by blast
qed

text \<open>
  C3: when the edge list of \<open>s\<close> in a reachable state holds an edge \<open>e0\<close> to \<open>t\<close>, after
  \<open>addEdge g s t ty w\<close> the edges from \<open>s\<close> to \<open>t\<close> are exactly one: \<open>e0\<close> with its type
  and the weight \<open>max (weight e0) w\<close>, which is the stored weight when \<open>w\<close> is lower and \<open>w\<close>
  when it is higher. The list of \<open>s\<close> keeps its length.
\<close>

theorem addEdge_existing_pair:
  "reachable g \<Longrightarrow> find (\<lambda>e. targetId e = t) (outgoing g s) = Some e0 \<Longrightarrow>
     filter (\<lambda>e. targetId e = t) (outgoing (addEdge g s t ty w) s)
       = [\<lparr>targetId = t, etype = etype e0, weight = max (weight e0) w\<rparr>]
     \<and> length (outgoing (addEdge g s t ty w) s) = length (outgoing g s)"
proof -
  assume r: "reachable g" and f: "find (\<lambda>e. targetId e = t) (outgoing g s) = Some e0"
  have inv: "graph_inv g" by (rule reachable_inv [OF r])
  note e0 = find_outgoing_Some [OF f]
  have hs: "has (nodes g) s" and ht: "has (nodes g) t"
    using inv_ends [OF inv e0(1)] e0(2) by auto
  have og: "outgoing (addEdge g s t ty w) s = raise_weight t w (outgoing g s)"
    by (simp add: outgoing_addEdge [OF hs ht] put_edge_def f)
  have "e0\<lparr>weight := max (weight e0) w\<rparr> = \<lparr>targetId = t, etype = etype e0, weight = max (weight e0) w\<rparr>"
    using e0(2) by simp
  moreover have "length (raise_weight t w (outgoing g s)) = length (outgoing g s)"
    using length_map [of targetId "raise_weight t w (outgoing g s)"]
    by (simp only: targets_raise_weight length_map)
  ultimately show ?thesis
    using filter_raise_weight [OF inv_distinct(1) [OF inv] f, of w] og by simp
qed

theorem addEdge_existing_pair_witness:
  "reachable ex_graph
   \<and> find (\<lambda>e. targetId e = ''b'') (outgoing ex_graph ''a'')
       = Some \<lparr>targetId = ''b'', etype = Reference, weight = 1\<rparr>
   \<and> filter (\<lambda>e. targetId e = ''b'') (outgoing (addEdge ex_graph ''a'' ''b'' Similar 3) ''a'')
       = [\<lparr>targetId = ''b'', etype = Reference, weight = 3\<rparr>]
   \<and> filter (\<lambda>e. targetId e = ''b'') (outgoing (addEdge ex_graph ''a'' ''b'' Similar (1 / 2)) ''a'')
       = [\<lparr>targetId = ''b'', etype = Reference, weight = 1\<rparr>]"
proof -
  have f: "find (\<lambda>e. targetId e = ''b'') (outgoing ex_graph ''a'')
             = Some \<lparr>targetId = ''b'', etype = Reference, weight = 1\<rparr>"
    by code_simp
  show ?thesis
    using addEdge_existing_pair [OF reachable_ex_graph f, of Similar 3]
      addEdge_existing_pair [OF reachable_ex_graph f, of Similar "1 / 2"]
      reachable_ex_graph f
    by simp
qed

text \<open>
  C4: \<open>addEdge\<close> with an endpoint that is no node returns the state as it was (the model
  has no error value: the method raises nothing); with both endpoints present the edge
  exists afterwards, in particular when the missing target has been added by \<open>addNode\<close>
  in between.
\<close>

theorem addEdge_missing_endpoint:
  "(\<not> has (nodes g) s \<or> \<not> has (nodes g) t \<longrightarrow> addEdge g s t ty w = g)
   \<and> (has (nodes g) s \<and> has (nodes g) t \<longrightarrow> hasEdge (addEdge g s t ty w) s t)
   \<and> (has (nodes g) s \<and> has (nodes (addNode g e)) (entry_id e)
        \<longrightarrow> hasEdge (addEdge (addNode (addEdge g s (entry_id e) ty w) e) s (entry_id e) ty w)
              s (entry_id e))"
proof (intro conjI impI)
  assume "\<not> has (nodes g) s \<or> \<not> has (nodes g) t"
  then show "addEdge g s t ty w = g" by (rule addEdge_absent)
next
  assume "has (nodes g) s \<and> has (nodes g) t"
  then show "hasEdge (addEdge g s t ty w) s t" by (simp add: hasEdge_addEdge)
next
  assume a: "has (nodes g) s \<and> has (nodes (addNode g e)) (entry_id e)"
  let ?g1 = "addEdge g s (entry_id e) ty w"
  have n1: "nodes ?g1 = nodes g" by (rule nodes_addEdge)
  have c1: "config ?g1 = config g" by (simp add: addEdge_def Let_def)
  have "nodes (addNode ?g1 e) = nodes (addNode g e)"
    by (simp add: addNode_def n1 c1)
  with a have "has (nodes (addNode ?g1 e)) s \<and> has (nodes (addNode ?g1 e)) (entry_id e)"
    by (simp add: has_nodes_addNode)
  then show "hasEdge (addEdge (addNode ?g1 e) s (entry_id e) ty w) s (entry_id e)"
    by (simp add: hasEdge_addEdge)
qed

theorem addEdge_missing_endpoint_witness:
  "\<not> has (nodes ex_graph) ''d'' \<and> has (nodes ex_graph) ''a''
   \<and> addEdge ex_graph ''a'' ''d'' Causal 2 = ex_graph
   \<and> has (nodes (addNode ex_graph (ex_entry ''d'' []))) ''d''
   \<and> hasEdge (addEdge (addNode (addEdge ex_graph ''a'' ''d'' Causal 2) (ex_entry ''d'' []))
                ''a'' ''d'' Causal 2) ''a'' ''d''
   \<and> hasEdge (addEdge ex_graph ''a'' ''c'' Causal 2) ''a'' ''c''"
proof -
  have h: "\<not> has (nodes ex_graph) ''d''" "has (nodes ex_graph) ''a''" "has (nodes ex_graph) ''c''"
    "has (nodes (addNode ex_graph (ex_entry ''d'' []))) (entry_id (ex_entry ''d'' []))"
    "entry_id (ex_entry ''d'' []) = ''d''"
    by code_simp+
  show ?thesis
    using addEdge_missing_endpoint [of ex_graph "''a''" "''d''" Causal 2 "ex_entry ''d'' []"]
      addEdge_missing_endpoint [of ex_graph "''a''" "''c''" Causal 2 "ex_entry ''d'' []"] h
    by simp
qed

text \<open>
  C6, as the code has it: \<open>addEdge\<close> with both endpoints present sets the staleness flag
  whether or not it changes the graph. When the edge exists in a reachable state and the
  new weight is not greater than the stored one, the call changes nothing but the flag,
  which it sets.
\<close>

theorem addEdge_always_marks_stale:
  "(has (nodes g) s \<and> has (nodes g) t \<longrightarrow> dirty (addEdge g s t ty w))
   \<and> (reachable g \<and> find (\<lambda>e. targetId e = t) (outgoing g s) = Some e0 \<and> w \<le> weight e0
        \<longrightarrow> addEdge g s t ty w = g\<lparr>dirty := True\<rparr>)"
  using addEdge_unchanged [OF reachable_inv]
  by (auto simp: addEdge_def Let_def)

lemma ex_ranked_edge:
  "find (\<lambda>e. targetId e = ''b'') (outgoing ex_ranked ''a'')
     = Some \<lparr>targetId = ''b'', etype = Reference, weight = 1\<rparr>"
proof -
  have "outgoing ex_ranked ''a'' = outgoing ex_graph ''a''"
    by (simp add: ex_ranked_def outgoing_def computePageRank_frame)
  moreover have "find (\<lambda>e. targetId e = ''b'') (outgoing ex_graph ''a'')
     = Some \<lparr>targetId = ''b'', etype = Reference, weight = 1\<rparr>"
    by code_simp
  ultimately show ?thesis by simp
qed

lemma reachable_ex_ranked: "reachable ex_ranked"
  unfolding ex_ranked_def by (intro reachable.intros reachable_ex_graph)

theorem addEdge_always_marks_stale_witness:
  "reachable ex_ranked \<and> has (nodes ex_ranked) ''a'' \<and> has (nodes ex_ranked) ''b''
   \<and> \<not> dirty ex_ranked
   \<and> addEdge ex_ranked ''a'' ''b'' Similar (1 / 2) = ex_ranked\<lparr>dirty := True\<rparr>
   \<and> dirty (addEdge ex_ranked ''a'' ''b'' Similar (1 / 2))"
proof -
  have "\<not> dirty ex_ranked" by (simp add: ex_ranked_def computePageRank_frame)
  moreover have "has (nodes ex_graph) ''a'' \<and> has (nodes ex_graph) ''b''" by code_simp
  then have "has (nodes ex_ranked) ''a'' \<and> has (nodes ex_ranked) ''b''"
    by (simp add: ex_ranked_def computePageRank_frame)
  moreover have "addEdge ex_ranked ''a'' ''b'' Similar (1 / 2) = ex_ranked\<lparr>dirty := True\<rparr>"
    using addEdge_always_marks_stale [of ex_ranked "''a''" "''b''" Similar "1 / 2"
        "\<lparr>targetId = ''b'', etype = Reference, weight = 1\<rparr>"]
      reachable_ex_ranked ex_ranked_edge by simp
  ultimately show ?thesis using reachable_ex_ranked by simp
qed

text \<open>
  C6 as claimed fails: after \<open>computePageRank\<close> the flag is clear; re-inserting the edge
  from a to b with the lower weight 1/2 changes no node, edge or reverse entry, and the
  flag is set.
\<close>

theorem addEdge_stale_counterexample:
  "has (nodes ex_ranked) ''a'' \<and> has (nodes ex_ranked) ''b'' \<and> hasEdge ex_ranked ''a'' ''b''
   \<and> find (\<lambda>e. targetId e = ''b'') (outgoing ex_ranked ''a'')
       = Some \<lparr>targetId = ''b'', etype = Reference, weight = 1\<rparr>
   \<and> dirty ex_ranked = False
   \<and> nodes (addEdge ex_ranked ''a'' ''b'' Similar (1 / 2)) = nodes ex_ranked
   \<and> edges (addEdge ex_ranked ''a'' ''b'' Similar (1 / 2)) = edges ex_ranked
   \<and> reverseEdges (addEdge ex_ranked ''a'' ''b'' Similar (1 / 2)) = reverseEdges ex_ranked
   \<and> dirty (addEdge ex_ranked ''a'' ''b'' Similar (1 / 2)) = True"
proof -
  have w: "(1 / 2 :: real) \<le> weight \<lparr>targetId = ''b'', etype = Reference, weight = 1\<rparr>" by simp
  have eq: "addEdge ex_ranked ''a'' ''b'' Similar (1 / 2) = ex_ranked\<lparr>dirty := True\<rparr>"
    by (rule addEdge_unchanged [OF reachable_inv [OF reachable_ex_ranked] ex_ranked_edge w])
  have n: "nodes ex_ranked = nodes ex_graph"
    by (simp add: ex_ranked_def computePageRank_frame)
  have "has (nodes ex_graph) ''a'' \<and> has (nodes ex_graph) ''b''" by code_simp
  moreover have "hasEdge ex_ranked ''a'' ''b''"
    using find_outgoing_Some(1,2) [OF ex_ranked_edge] by (force simp: hasEdge_iff)
  moreover have "dirty ex_ranked = False" by (simp add: ex_ranked_def computePageRank_frame)
  ultimately show ?thesis by (simp add: eq n ex_ranked_edge)
qed

text \<open>
  C9 at a supplied confidence of 0: \<open>addNode\<close> stores 1/2, not 0 (the supplied category is
  stored). The same default replaces an empty supplied category by \<open>general\<close>.
\<close>

theorem addNode_zero_confidence:
  "map_of (nodes (addNode (new_graph DEFAULT_CONFIG) ex_zero_confidence)) ''a''
     = Some \<lparr>node_id = ''a'', category = ''note'', confidence = 1 / 2,
             accessCount = 3, createdAt = 7\<rparr>"
  by (simp add: addNode_def new_graph_def DEFAULT_CONFIG_def ex_zero_confidence_def has_def
      node_of_entry_def or_num_def or_str_def)

subsection \<open>PageRank\<close>

lemma rank_of_spec: "rank_of pr s = spec_rank pr s"
  by (auto simp: rank_of_def spec_rank_def or_num_def split: option.splits)

lemma fold_add_sum_list:
  "fold (\<lambda>k (s::real). s + f k) xs a = a + sum_list (map f xs)"
  by (induction xs arbitrary: a) auto

lemma dangling_sum_spec: "dangling_sum (danglingNodes g) pr = spec_dangling_sum g pr"
proof -
  have "(\<lambda>nodeId. case map_of (edges g) nodeId of None \<Rightarrow> True | Some out \<Rightarrow> length out = 0)
          = (\<lambda>s. length (outgoing g s) = 0)"
    by (auto simp: outgoing_def fun_eq_iff split: option.splits)
  then show ?thesis
    by (simp add: dangling_sum_def danglingNodes_def spec_dangling_sum_def fold_add_sum_list
        rank_of_spec [abs_def])
qed

lemma incoming_sum_list:
  "incoming_sum g pr v
     = sum_list (map (\<lambda>s. rank_of pr s / real (outDegree g s)) (incoming g v))"
  by (simp add: incoming_sum_def incoming_def fold_add_sum_list split: option.splits)

lemma outDegree_source:
  "outgoing g s \<noteq> [] \<Longrightarrow> outDegree g s = length (outgoing g s)"
  by (auto simp: outDegree_def outgoing_def split: option.splits)

lemma sources_are_nodes:
  assumes inv: "graph_inv g"
  shows "set (incoming g v) = {s \<in> set (map fst (nodes g)). hasEdge g s v}"
proof -
  have "s \<in> set (map fst (nodes g))" if "hasEdge g s v" for s
  proof -
    from that obtain e where "e \<in> set (outgoing g s)" by (auto simp: hasEdge_iff)
    from inv_ends [OF inv this] show ?thesis by (simp add: has_def)
  qed
  then show ?thesis using inv_rev [OF inv] by (auto simp: hasEdge_iff simp del: set_map)
qed

lemma incoming_sum_spec:
  assumes inv: "graph_inv g"
  shows "incoming_sum g pr v = spec_incoming_sum g pr v"
proof -
  let ?f = "\<lambda>s. rank_of pr s / real (outDegree g s)"
  let ?h = "\<lambda>s. spec_rank pr s / real (length (outgoing g s))"
  let ?srcs = "filter (\<lambda>s. hasEdge g s v) (map fst (nodes g))"
  have d1: "distinct (incoming g v)" by (rule inv_distinct(2) [OF inv])
  have d2: "distinct ?srcs" using inv_distinct(3) [OF inv] by simp
  have st: "set (incoming g v) = set ?srcs" using sources_are_nodes [OF inv, of v] by auto
  have eq: "?f s = ?h s" if "s \<in> set ?srcs" for s
  proof -
    from that have "outgoing g s \<noteq> []" by (auto simp: hasEdge_iff)
    then show ?thesis by (simp add: outDegree_source rank_of_spec)
  qed
  have "incoming_sum g pr v = sum ?f (set (incoming g v))"
    by (simp add: incoming_sum_list sum_list_distinct_conv_sum_set [OF d1])
  also have "\<dots> = sum ?h (set ?srcs)" unfolding st by (rule sum.cong) (use eq in auto)
  also have "\<dots> = spec_incoming_sum g pr v"
    by (simp add: spec_incoming_sum_def sum_list_distinct_conv_sum_set [OF d2])
  finally show ?thesis .
qed

lemma new_rank_spec:
  "graph_inv g \<Longrightarrow> new_rank g (danglingNodes g) pr v = spec_new_rank g pr v"
  by (simp add: new_rank_def spec_new_rank_def incoming_sum_spec dangling_sum_spec)

lemma map_of_edges_reweigh:
  "map_of (edges (reweigh f g)) s = map_option (map (\<lambda>e. e\<lparr>weight := f s e\<rparr>)) (map_of (edges g) s)"
  by (simp add: reweigh_def map_ran_conv)

lemma reweigh_frame:
  "nodes (reweigh f g) = nodes g" "reverseEdges (reweigh f g) = reverseEdges g"
  "pageRanks (reweigh f g) = pageRanks g" "config (reweigh f g) = config g"
  by (simp_all add: reweigh_def)

lemma outDegree_reweigh: "outDegree (reweigh f g) = outDegree g"
  by (auto simp: outDegree_def map_of_edges_reweigh fun_eq_iff split: option.splits)

lemma danglingNodes_reweigh: "danglingNodes (reweigh f g) = danglingNodes g"
proof -
  have "(case map_of (edges (reweigh f g)) k of None \<Rightarrow> True | Some out \<Rightarrow> length out = 0)
        = (case map_of (edges g) k of None \<Rightarrow> True | Some out \<Rightarrow> length out = 0)" for k
    by (simp add: map_of_edges_reweigh split: option.splits)
  then show ?thesis by (simp add: danglingNodes_def reweigh_frame)
qed

lemma pr_iteration_reweigh: "pr_iteration (reweigh f g) dn pr = pr_iteration g dn pr"
proof -
  have "incoming_sum (reweigh f g) pr = incoming_sum g pr"
    unfolding incoming_sum_def reweigh_frame outDegree_reweigh ..
  then have "new_rank (reweigh f g) dn pr = new_rank g dn pr"
    by (simp add: fun_eq_iff new_rank_def reweigh_frame)
  then show ?thesis by (simp add: pr_iteration_def reweigh_frame)
qed

lemma pr_loop_reweigh: "pr_loop n i (reweigh f g) dn pr = pr_loop n i g dn pr"
  by (induction n arbitrary: i pr)
    (simp_all add: pr_iteration_reweigh reweigh_frame split: prod.splits)

lemma computePageRank_reweigh:
  "snd (computePageRank (reweigh f g)) = snd (computePageRank g)"
proof -
  have "init_ranks (reweigh f g) = init_ranks g" by (simp add: init_ranks_def reweigh_frame)
  then show ?thesis
    by (simp add: computePageRank_def reweigh_frame pr_loop_reweigh danglingNodes_reweigh
        split: prod.splits)
qed

text \<open>
  C5: in a reachable state, one iteration over the current table \<open>pr\<close> gives every node
  \<open>v\<close> the rank \<open>(1 - d) / N + d * (incomingSum v + danglingSum / N)\<close> of the specification,
  and every iteration of \<open>computePageRank\<close> is such a step; replacing the stored edge
  weights by any others changes neither a step nor the returned table and iteration count.
\<close>

theorem pr_iteration_formula:
  "reachable g \<Longrightarrow> has (nodes g) v \<Longrightarrow>
     map_of (fst (pr_iteration g (danglingNodes g) pr)) v = Some (spec_new_rank g pr v)
     \<and> pr_loop (Suc n) i g (danglingNodes g) pr =
         (if snd (pr_iteration g (danglingNodes g) pr) < pageRankConvergence (config g)
          then (fst (pr_iteration g (danglingNodes g) pr), Suc i)
          else pr_loop n (Suc i) g (danglingNodes g) (fst (pr_iteration g (danglingNodes g) pr)))
     \<and> pr_iteration (reweigh f g) (danglingNodes (reweigh f g)) pr
         = pr_iteration g (danglingNodes g) pr
     \<and> snd (computePageRank (reweigh f g)) = snd (computePageRank g)"
  by (simp add: map_of_pr_iteration new_rank_spec [OF reachable_inv] pr_iteration_reweigh
      danglingNodes_reweigh computePageRank_reweigh split: prod.splits)

theorem pr_iteration_formula_witness:
  "reachable ex_graph \<and> has (nodes ex_graph) ''a''
   \<and> map_of (fst (pr_iteration ex_graph (danglingNodes ex_graph) (init_ranks ex_graph))) ''a''
       = Some (77 / 180)"
proof -
  have v: "spec_new_rank ex_graph (init_ranks ex_graph) ''a'' = 77 / 180" by code_simp
  have h: "has (nodes ex_graph) ''a''" by code_simp
  show ?thesis
    using pr_iteration_formula [OF reachable_ex_graph h, of "init_ranks ex_graph"] v h
      reachable_ex_graph
    by simp
qed

subsection \<open>The ranks sum to one\<close>

lemma rank_of_pr_iteration:
  "has (nodes g) v \<Longrightarrow> rank_of (fst (pr_iteration g dn pr)) v = new_rank g dn pr v"
  by (simp add: rank_of_spec spec_rank_def map_of_pr_iteration)

lemma targets_are_nodes:
  assumes inv: "graph_inv g"
  shows "{v \<in> set (map fst (nodes g)). s \<in> set (incoming g v)} = set (map targetId (outgoing g s))"
proof -
  have "v \<in> set (map fst (nodes g))" if "v \<in> set (map targetId (outgoing g s))" for v
  proof -
    from that obtain e where "e \<in> set (outgoing g s)" "targetId e = v" by auto
    with inv_ends [OF inv, of e s] show ?thesis by (auto simp: has_def)
  qed
  then show ?thesis using inv_rev [OF inv] by (auto simp del: set_map)
qed

lemma sum_incoming_sums:
  assumes inv: "graph_inv g"
  shows "(\<Sum>v \<in> set (map fst (nodes g)). incoming_sum g pr v)
          = (\<Sum>s \<in> {s \<in> set (map fst (nodes g)). outgoing g s \<noteq> []}. rank_of pr s)"
proof -
  let ?V = "set (map fst (nodes g))"
  let ?f = "\<lambda>s. rank_of pr s / real (outDegree g s)"
  have src: "set (incoming g v) = {s. s \<in> ?V \<and> s \<in> set (incoming g v)}" for v
    using sources_are_nodes [OF inv, of v] by auto
  have "(\<Sum>v \<in> ?V. incoming_sum g pr v) = (\<Sum>v \<in> ?V. sum ?f (set (incoming g v)))"
    by (simp add: incoming_sum_list sum_list_distinct_conv_sum_set [OF inv_distinct(2) [OF inv]])
  also have "\<dots> = (\<Sum>v \<in> ?V. sum ?f {s. s \<in> ?V \<and> s \<in> set (incoming g v)})"
    using src by simp
  also have "\<dots> = (\<Sum>s \<in> ?V. \<Sum>v \<in> {v. v \<in> ?V \<and> s \<in> set (incoming g v)}. ?f s)"
    by (rule sum.swap_restrict) simp_all
  also have "\<dots> = (\<Sum>s \<in> ?V. \<Sum>v \<in> set (map targetId (outgoing g s)). ?f s)"
    using targets_are_nodes [OF inv] by simp
  also have "\<dots> = (\<Sum>s \<in> ?V. if outgoing g s \<noteq> [] then rank_of pr s else 0)"
  proof (rule sum.cong [OF refl])
    fix s assume "s \<in> ?V"
    have c: "card (set (map targetId (outgoing g s))) = length (outgoing g s)"
      using distinct_card [OF inv_distinct(1) [OF inv, of s]] by simp
    show "(\<Sum>v \<in> set (map targetId (outgoing g s)). ?f s)
            = (if outgoing g s \<noteq> [] then rank_of pr s else 0)"
    proof (cases "outgoing g s = []")
      case True
      then show ?thesis by simp
    next
      case False
      then have "length (outgoing g s) \<noteq> 0" by simp
      then show ?thesis
        using c False by (simp add: outDegree_source del: set_map)
    qed
  qed
  also have "\<dots> = (\<Sum>s \<in> {s \<in> ?V. outgoing g s \<noteq> []}. rank_of pr s)"
    by (simp add: sum.inter_filter)
  finally show ?thesis .
qed

lemma dangling_sum_set:
  assumes inv: "graph_inv g"
  shows "dangling_sum (danglingNodes g) pr
           = (\<Sum>s \<in> {s \<in> set (map fst (nodes g)). outgoing g s = []}. rank_of pr s)"
proof -
  have d: "distinct (filter (\<lambda>s. length (outgoing g s) = 0) (map fst (nodes g)))"
    using inv_distinct(3) [OF inv] by simp
  have "{s \<in> set (map fst (nodes g)). outgoing g s = []}
          = set (filter (\<lambda>s. length (outgoing g s) = 0) (map fst (nodes g)))"
    by auto
  then show ?thesis
    unfolding dangling_sum_spec spec_dangling_sum_def sum_list_distinct_conv_sum_set [OF d]
    by (simp add: rank_of_spec [abs_def])
qed

lemma split_by_out_degree:
  "(\<Sum>s \<in> {s \<in> set (map fst (nodes g)). outgoing g s \<noteq> []}. rank_of pr s)
   + (\<Sum>s \<in> {s \<in> set (map fst (nodes g)). outgoing g s = []}. rank_of pr s)
   = (\<Sum>s \<in> set (map fst (nodes g)). rank_of pr s)"
proof -
  let ?V = "set (map fst (nodes g))"
  have "{s \<in> ?V. outgoing g s \<noteq> []} \<union> {s \<in> ?V. outgoing g s = []} = ?V" by auto
  moreover have "{s \<in> ?V. outgoing g s \<noteq> []} \<inter> {s \<in> ?V. outgoing g s = []} = {}" by auto
  ultimately show ?thesis
    using sum.union_disjoint [of "{s \<in> ?V. outgoing g s \<noteq> []}" "{s \<in> ?V. outgoing g s = []}"
        "rank_of pr"]
    by simp
qed

lemma pr_iteration_sum:
  assumes inv: "graph_inv g" and ne: "nodes g \<noteq> []"
    and one: "(\<Sum>s \<in> set (map fst (nodes g)). rank_of pr s) = 1"
  shows "(\<Sum>v \<in> set (map fst (nodes g)). rank_of (fst (pr_iteration g (danglingNodes g) pr)) v) = 1"
proof -
  let ?V = "set (map fst (nodes g))"
  let ?d = "pageRankDamping (config g)"
  let ?N = "real (length (nodes g))"
  let ?D = "dangling_sum (danglingNodes g) pr"
  have card: "real (card ?V) = ?N"
    using distinct_card [OF inv_distinct(3) [OF inv]] by simp
  have N: "?N \<noteq> 0" using ne by simp
  have "(\<Sum>v \<in> ?V. rank_of (fst (pr_iteration g (danglingNodes g) pr)) v)
          = (\<Sum>v \<in> ?V. new_rank g (danglingNodes g) pr v)"
    by (rule sum.cong [OF refl]) (simp add: rank_of_pr_iteration has_def)
  also have "\<dots> = (\<Sum>v \<in> ?V. (1 - ?d) / ?N + ?d * (?D / ?N) + ?d * incoming_sum g pr v)"
    by (rule sum.cong [OF refl]) (simp add: new_rank_def algebra_simps)
  also have "\<dots> = ?N * ((1 - ?d) / ?N + ?d * (?D / ?N)) + ?d * (\<Sum>v \<in> ?V. incoming_sum g pr v)"
    by (simp add: sum.distrib sum_distrib_left card del: set_map)
  also have "\<dots> = (1 - ?d) + ?d * ?D + ?d * (\<Sum>v \<in> ?V. incoming_sum g pr v)"
    using N by (simp add: field_simps)
  also have "\<dots> = (1 - ?d) + ?d * (\<Sum>s \<in> ?V. rank_of pr s)"
    unfolding sum_incoming_sums [OF inv] dangling_sum_set [OF inv]
      split_by_out_degree [where g = g and pr = pr, symmetric]
    by (simp only: distrib_left add.assoc add.commute)
  also have "\<dots> = 1" using one by simp
  finally show ?thesis .
qed

lemma pr_loop_sum:
  assumes inv: "graph_inv g" and ne: "nodes g \<noteq> []"
  shows "(\<Sum>s \<in> set (map fst (nodes g)). rank_of pr s) = 1 \<Longrightarrow>
         (\<Sum>s \<in> set (map fst (nodes g)). rank_of (fst (pr_loop n i g (danglingNodes g) pr)) s) = 1"
proof (induction n arbitrary: i pr)
  case 0
  then show ?case by simp
next
  case (Suc n)
  obtain nr md where it: "pr_iteration g (danglingNodes g) pr = (nr, md)"
    by (cases "pr_iteration g (danglingNodes g) pr")
  have "(\<Sum>s \<in> set (map fst (nodes g)). rank_of nr s) = 1"
    using pr_iteration_sum [OF inv ne Suc.prems] it by simp
  then show ?case using it Suc.IH [of nr "Suc i"] by simp
qed

lemma init_ranks_sum:
  assumes inv: "graph_inv g" and ne: "nodes g \<noteq> []"
  shows "(\<Sum>s \<in> set (map fst (nodes g)). rank_of (init_ranks g) s) = 1"
proof -
  have N: "real (length (nodes g)) \<noteq> 0" using ne by simp
  have card: "real (card (set (map fst (nodes g)))) = real (length (nodes g))"
    using distinct_card [OF inv_distinct(3) [OF inv]] by simp
  have "(\<Sum>s \<in> set (map fst (nodes g)). rank_of (init_ranks g) s)
          = (\<Sum>s \<in> set (map fst (nodes g)). 1 / real (length (nodes g)))"
    by (rule sum.cong [OF refl]) (simp add: rank_of_spec spec_rank_def map_of_init_ranks has_def)
  also have "\<dots> = 1" using N card by (simp del: set_map)
  finally show ?thesis .
qed

text \<open>
  C1: in every reachable state with at least one node, the ranks that the table returned by
  \<open>computePageRank\<close> (which is the table stored in the new state) gives to the nodes sum
  to exactly 1 over the reals, whatever the damping factor, iteration cap, convergence
  threshold and number of dangling nodes.
\<close>

theorem pageRank_sums_to_one:
  "reachable g \<Longrightarrow> nodes g \<noteq> [] \<Longrightarrow>
     sum_list (map (rank_of (fst (snd (computePageRank g)))) (map fst (nodes g))) = 1
     \<and> pageRanks (fst (computePageRank g)) = fst (snd (computePageRank g))"
proof -
  assume r: "reachable g" and ne: "nodes g \<noteq> []"
  have inv: "graph_inv g" by (rule reachable_inv [OF r])
  let ?loop = "pr_loop (nat (pageRankIterations (config g))) 0 g (danglingNodes g) (init_ranks g)"
  have tab: "fst (snd (computePageRank g)) = fst ?loop"
    and st: "pageRanks (fst (computePageRank g)) = fst ?loop"
    using ne by (simp_all add: computePageRank_def split: prod.splits)
  have "(\<Sum>s \<in> set (map fst (nodes g)). rank_of (fst ?loop) s) = 1"
    by (rule pr_loop_sum [OF inv ne init_ranks_sum [OF inv ne]])
  then have "sum_list (map (rank_of (fst ?loop)) (map fst (nodes g))) = 1"
    using sum_list_distinct_conv_sum_set [OF inv_distinct(3) [OF inv], of "rank_of (fst ?loop)"]
    by simp
  then show ?thesis by (simp add: tab st)
qed

theorem pageRank_sums_to_one_witness:
  "reachable ex_graph \<and> nodes ex_graph \<noteq> [] \<and> danglingNodes ex_graph = [''c'']
   \<and> sum_list (map (rank_of (fst (snd (computePageRank ex_graph)))) (map fst (nodes ex_graph))) = 1"
proof -
  have ne: "nodes ex_graph \<noteq> []" by code_simp
  have dn: "danglingNodes ex_graph = [''c'']" by code_simp
  show ?thesis
    using pageRank_sums_to_one [OF reachable_ex_graph ne] reachable_ex_graph ne dn by simp
qed

subsection \<open>Ranking\<close>

lemma rank_result_spec:
  assumes inv: "graph_inv g"
  shows "rank_result g alpha r = spec_ranked g alpha r"
proof (cases "nodes g = []")
  case True
  have "\<not> has (pageRanks g) (entry_id (sr_entry r))"
    using inv_keys(3) [OF inv, of "entry_id (sr_entry r)"] True by (auto simp: has_def)
  then have "spec_rank (pageRanks g) (entry_id (sr_entry r)) = 0"
    by (simp add: has_iff spec_rank_def)
  then show ?thesis using True
    by (simp add: rank_result_def spec_ranked_def rank_of_spec Let_def)
next
  case False
  then show ?thesis
    by (simp add: rank_result_def spec_ranked_def rank_of_spec Let_def)
qed

lemma sorted_desc_sort_key:
  "sorted_wrt (\<lambda>a b. combinedScore b \<le> combinedScore a)
     (sort_key (\<lambda>r. - combinedScore r) (xs :: RankedResult list))"
proof -
  have "sorted (map (\<lambda>r. - combinedScore r) (sort_key (\<lambda>r. - combinedScore r) xs))"
    by (rule sorted_sort_key)
  then show ?thesis by (simp add: sorted_map)
qed

lemma graph_inv_rank_state:
  "reachable g \<Longrightarrow> graph_inv (if dirty g then fst (computePageRank g) else g)"
  by (simp add: reachable_inv graph_inv_computePageRank)

lemma snd_rankWithGraph:
  "snd (rankWithGraph g rs alpha)
     = sort_key (\<lambda>r. - combinedScore r)
         (map (rank_result (if dirty g then fst (computePageRank g) else g) alpha) rs)"
  by (simp add: rankWithGraph_def Let_def)

text \<open>
  C7: \<open>rankWithGraph\<close> leaves the state that \<open>computePageRank\<close> produces when the flag is set
  and the state as it is otherwise; its output holds, for each input result, the row with
  \<open>combinedScore = alpha * score + (1 - alpha) * (pageRank * N)\<close>, \<open>N\<close> the node count and
  \<open>pageRank\<close> the rank cached in that state (as a multiset: nothing is lost or added), in
  the order of non-increasing combined score.
\<close>

theorem rankWithGraph_blend_sorted:
  "reachable g \<Longrightarrow>
     fst (rankWithGraph g rs alpha) = (if dirty g then fst (computePageRank g) else g)
     \<and> mset (snd (rankWithGraph g rs alpha))
         = mset (map (spec_ranked (fst (rankWithGraph g rs alpha)) alpha) rs)
     \<and> sorted_wrt (\<lambda>a b. combinedScore b \<le> combinedScore a) (snd (rankWithGraph g rs alpha))"
proof -
  assume r: "reachable g"
  have "rank_result (if dirty g then fst (computePageRank g) else g) alpha
          = spec_ranked (if dirty g then fst (computePageRank g) else g) alpha"
    using rank_result_spec [OF graph_inv_rank_state [OF r]] by (simp only: fun_eq_iff) simp
  then show ?thesis
    by (simp only: snd_rankWithGraph fst_rankWithGraph sorted_desc_sort_key mset_sort)
qed

lemma reachable_ex_two_pass: "reachable ex_two_pass"
  unfolding ex_two_pass_def by (intro reachable.intros)

theorem rankWithGraph_blend_sorted_witness:
  "reachable ex_two_pass
   \<and> map combinedScore (snd (rankWithGraph ex_two_pass ex_results (7 / 10)))
       = [9109 / 12000, 7 / 10, 2591 / 6000]
   \<and> mset (snd (rankWithGraph ex_two_pass ex_results (7 / 10)))
       = mset (map (spec_ranked (fst (rankWithGraph ex_two_pass ex_results (7 / 10))) (7 / 10))
                 ex_results)
   \<and> sorted_wrt (\<lambda>a b. combinedScore b \<le> combinedScore a)
         (snd (rankWithGraph ex_two_pass ex_results (7 / 10)))"
proof -
  have e: "map combinedScore (snd (rankWithGraph ex_two_pass ex_results (7 / 10)))
             = [9109 / 12000, 7 / 10, 2591 / 6000]"
    by code_simp
  show ?thesis
    using rankWithGraph_blend_sorted [OF reachable_ex_two_pass, of ex_results "7 / 10"] e
      reachable_ex_two_pass
    by blast
qed

lemma rank_result_unknown:
  assumes inv: "graph_inv g" and n: "\<not> has (nodes g) (entry_id (sr_entry r))"
  shows "rank_result g alpha r
           = \<lparr>entry = sr_entry r, score = sr_score r, pageRank = 0,
              combinedScore = alpha * sr_score r, community = None\<rparr>"
proof -
  have "\<not> has (pageRanks g) (entry_id (sr_entry r))"
    using inv_keys(3) [OF inv] n by blast
  then have p: "map_of (pageRanks g) (entry_id (sr_entry r)) = None"
    by (simp add: has_iff)
  have "\<not> has (communities g) (entry_id (sr_entry r))"
    using inv_keys(4) [OF inv] n by blast
  then have c: "map_of (communities g) (entry_id (sr_entry r)) = None"
    by (simp add: has_iff)
  show ?thesis
    unfolding rank_result_def Let_def rank_of_def or_num_def p c by simp
qed

text \<open>
  C10: a result whose entry id is no node of a reachable graph is in the output with
  \<open>pageRank\<close> 0, \<open>combinedScore = alpha * score\<close> and no community; the output has as many
  rows as the input and is in the order of non-increasing combined score (the method has
  no error path).
\<close>

theorem rankWithGraph_unknown_entry:
  "reachable g \<Longrightarrow> \<not> has (nodes g) (entry_id (sr_entry r)) \<Longrightarrow> r \<in> set rs \<Longrightarrow>
     \<lparr>entry = sr_entry r, score = sr_score r, pageRank = 0,
      combinedScore = alpha * sr_score r, community = None\<rparr>
       \<in> set (snd (rankWithGraph g rs alpha))
     \<and> length (snd (rankWithGraph g rs alpha)) = length rs
     \<and> sorted_wrt (\<lambda>a b. combinedScore b \<le> combinedScore a) (snd (rankWithGraph g rs alpha))"
proof -
  assume r: "reachable g" and n: "\<not> has (nodes g) (entry_id (sr_entry r))" and m: "r \<in> set rs"
  define g' where "g' = (if dirty g then fst (computePageRank g) else g)"
  have inv: "graph_inv g'" unfolding g'_def by (rule graph_inv_rank_state [OF r])
  have "nodes g' = nodes g" by (simp add: g'_def computePageRank_frame)
  with n have n': "\<not> has (nodes g') (entry_id (sr_entry r))" by simp
  have out: "snd (rankWithGraph g rs alpha)
               = sort_key (\<lambda>r. - combinedScore r) (map (rank_result g' alpha) rs)"
    unfolding g'_def by (rule snd_rankWithGraph)
  have "rank_result g' alpha r \<in> set (map (rank_result g' alpha) rs)"
    using m by simp
  then have "\<lparr>entry = sr_entry r, score = sr_score r, pageRank = 0,
             combinedScore = alpha * sr_score r, community = None\<rparr>
               \<in> set (map (rank_result g' alpha) rs)"
    by (simp only: rank_result_unknown [OF inv n'])
  then show ?thesis
    by (simp only: out set_sort length_sort length_map sorted_desc_sort_key)
qed

theorem rankWithGraph_unknown_entry_witness:
  "reachable ex_two_pass \<and> \<not> has (nodes ex_two_pass) ''z''
   \<and> \<lparr>sr_entry = ex_entry ''z'' [], sr_score = 1\<rparr> \<in> set ex_results
   \<and> \<lparr>entry = ex_entry ''z'' [], score = 1, pageRank = 0, combinedScore = 7 / 10,
       community = None\<rparr> \<in> set (snd (rankWithGraph ex_two_pass ex_results (7 / 10)))
   \<and> length (snd (rankWithGraph ex_two_pass ex_results (7 / 10))) = 3"
proof -
  let ?r = "\<lparr>sr_entry = ex_entry ''z'' [], sr_score = 1\<rparr>"
  have n: "\<not> has (nodes ex_two_pass) ''z''" by code_simp
  then have n': "\<not> has (nodes ex_two_pass) (entry_id (sr_entry ?r))"
    by (simp add: ex_entry_def)
  have m: "?r \<in> set ex_results" by (simp add: ex_results_def)
  have l: "length ex_results = 3" by (simp add: ex_results_def)
  have "\<lparr>entry = sr_entry ?r, score = sr_score ?r, pageRank = 0,
         combinedScore = 7 / 10 * sr_score ?r, community = None\<rparr>
        = \<lparr>entry = ex_entry ''z'' [], score = 1, pageRank = 0, combinedScore = 7 / 10,
           community = None\<rparr>"
    by simp
  with rankWithGraph_unknown_entry [OF reachable_ex_two_pass n' m, of "7 / 10"] n m l
    reachable_ex_two_pass
  show ?thesis by (simp only: simp_thms)
qed

end
